theory Spec2Isabelle
  imports Main "HOL-Library.Sublist"
begin

section \<open>The throttle hook\<close>

text \<open>
  Source: \<^verbatim>\<open>src/components/DebounceThrottleExamples.jsx\<close>, lines 74-83.
  \<^verbatim>\<open>
  function useThrottle(callback, delay) {
    const lastRun = React.useRef(Date.now());
    return useCallback(() => {
      if (Date.now() - lastRun.current >= delay) {
        callback();
        lastRun.current = Date.now();
      }
    }, [callback, delay]);
  }
  \<close>
  The only state of an instance is the ref \<open>lastRun\<close>. The clock \<open>Date.now()\<close> is
  an input: the hook reads it once when it is instantiated, and the returned function
  reads it once in its guard and once more after the callback has returned. Times are
  integers (milliseconds). The callback acts on the state of its consumer, of type
  \<open>'c\<close>, and either returns normally (\<open>None\<close>) or throws (\<open>Some e\<close>).
\<close>

record throttle =
  lastRun :: int

datatype 'e outcome = Dropped | Executed | Raised 'e

type_synonym ('c, 'e) callback = "'c \<Rightarrow> 'e option \<times> 'c"

text \<open>Instantiation: \<open>useRef(Date.now())\<close>. The delay is not inspected.\<close>

definition useThrottle :: "int \<Rightarrow> int \<Rightarrow> throttle" where
  "useThrottle delay now = \<lparr>lastRun = now\<rparr>"

text \<open>
  The hook's body has no \<open>throw\<close> and no test of \<open>delay\<close>; as a construction that
  could be rejected (\<open>None\<close>) it therefore always yields an instance.
\<close>

definition useThrottle_construct :: "int \<Rightarrow> int \<Rightarrow> throttle option" where
  "useThrottle_construct delay now = Some (useThrottle delay now)"

text \<open>
  The throttled function. \<open>now1\<close> is the clock reading of the guard, \<open>now2\<close> the
  reading stored after the callback has returned. A throwing callback leaves the
  function before the assignment to \<open>lastRun.current\<close>, and nothing catches it.
\<close>

definition request ::
  "int \<Rightarrow> ('c, 'e) callback \<Rightarrow> int \<Rightarrow> int \<Rightarrow> throttle \<times> 'c \<Rightarrow> 'e outcome \<times> throttle \<times> 'c" where
  "request delay callback now1 now2 s =
     (case s of (st, c) \<Rightarrow>
        if now1 - lastRun st \<ge> delay then
          (case callback c of
             (Some e, c') \<Rightarrow> (Raised e, st, c')
           | (None, c') \<Rightarrow> (Executed, st\<lparr>lastRun := now2\<rparr>, c'))
        else (Dropped, st, c))"

text \<open>
  A sequence of calls of the throttled function, each with its two clock readings.
  The log keeps, for every call, the readings and what happened.
\<close>

fun run_requests ::
  "int \<Rightarrow> ('c, 'e) callback \<Rightarrow> (int \<times> int) list \<Rightarrow> throttle \<times> 'c
     \<Rightarrow> (int \<times> int \<times> 'e outcome) list \<times> throttle \<times> 'c" where
  "run_requests delay callback [] s = ([], s)"
| "run_requests delay callback (r # rs) s =
     (case request delay callback (fst r) (snd r) s of (out, s') \<Rightarrow>
        (case run_requests delay callback rs s' of (log, s'') \<Rightarrow>
           ((fst r, snd r, out) # log, s'')))"

text \<open>
  The completed executions of a log: the calls whose callback returned normally, each
  with its start and the fire time it recorded. A call whose callback threw ran the
  callback too, but recorded nothing; the log keeps it as \<open>Raised\<close>.
\<close>

fun executions :: "(int \<times> int \<times> 'e outcome) list \<Rightarrow> (int \<times> int) list" where
  "executions [] = []"
| "executions ((t1, t2, out) # log) =
     (if out = Executed then (t1, t2) # executions log else executions log)"

text \<open>
  Successive executions \<open>(s, r)\<close> (started at \<open>s\<close>, fire time recorded as \<open>r\<close>) are at
  least \<open>delay\<close> apart: from recorded time to next start, start to start and record
  to record.
\<close>

fun spaced :: "int \<Rightarrow> (int \<times> int) list \<Rightarrow> bool" where
  "spaced d [] = True"
| "spaced d [e] = True"
| "spaced d (e1 # e2 # es) =
     (fst e2 - snd e1 \<ge> d \<and> fst e2 - fst e1 \<ge> d \<and> snd e2 - snd e1 \<ge> d \<and> spaced d (e2 # es))"

text \<open>
  The window over a whole log, \<open>L\<close> being the last recorded fire time (at first the
  time of instantiation): a call is dropped only less than \<open>d\<close> ms after \<open>L\<close>; every
  call that runs the callback, whether it returns or throws, starts at least \<open>d\<close> ms
  after \<open>L\<close>; and only a callback that returns moves \<open>L\<close>, to the time recorded.
\<close>

fun windowed :: "int \<Rightarrow> int \<Rightarrow> (int \<times> int \<times> 'e outcome) list \<Rightarrow> bool" where
  "windowed d L [] = True"
| "windowed d L ((t1, t2, out) # log) =
     (case out of
        Dropped \<Rightarrow> t1 - L < d \<and> windowed d L log
      | Executed \<Rightarrow> d \<le> t1 - L \<and> windowed d t2 log
      | Raised e \<Rightarrow> d \<le> t1 - L \<and> windowed d L log)"

text \<open>
  The callback of \<open>ThrottledScroll\<close> (lines 128-130),
  \<^verbatim>\<open>() => { setThrottledCount(prev => prev + 1); }\<close>, on the counter it updates.
\<close>

definition count_up :: "(nat, unit) callback" where
  "count_up n = (None, Suc n)"

text \<open>A callback that throws, leaving its consumer as it was.\<close>

definition failing :: "(nat, string) callback" where
  "failing n = (Some ''boom'', n)"

section \<open>The host's timers\<close>

text \<open>
  \<open>setTimeout\<close> and \<open>clearTimeout\<close> belong to the host, not to the repository; the
  hooks below only call them. They are modelled as the HTML standard describes them:
  \<open>setTimeout\<close> returns a fresh handle and makes the callback due \<open>delay\<close> ms after
  the call, a negative delay counting as zero; \<open>clearTimeout\<close> removes the timer with
  the given handle and does nothing, silently, for \<open>null\<close> or a handle that is no
  longer pending. A pending timer is its handle, its due time and the payload of its
  callback closure. Handles are unique, so the timers of other instances never
  interfere, and each hook instance carries the timers it created. The fields \<open>fired\<close>
  and \<open>cancelled\<close> are bookkeeping for the properties: the handles whose callback has
  run, and the handles removed while pending.
\<close>

record 'p host =
  pending :: "(nat \<times> int \<times> 'p) list"
  nextId :: nat
  fired :: "nat list"
  cancelled :: "nat list"

definition setTimeout ::
  "'p \<Rightarrow> int \<Rightarrow> int \<Rightarrow> ('p, 'z) host_scheme \<Rightarrow> nat \<times> ('p, 'z) host_scheme" where
  "setTimeout p delay now h =
     (nextId h,
      h\<lparr>pending := pending h @ [(nextId h, now + max 0 delay, p)],
        nextId := Suc (nextId h)\<rparr>)"

definition clearTimeout :: "nat option \<Rightarrow> ('p, 'z) host_scheme \<Rightarrow> ('p, 'z) host_scheme" where
  "clearTimeout ho h =
     h\<lparr>pending := filter (\<lambda>x. Some (fst x) \<noteq> ho) (pending h),
       cancelled := cancelled h @ filter (\<lambda>i. Some i = ho) (map fst (pending h))\<rparr>"

text \<open>
  Letting the clock reach \<open>t\<close>: every pending timer due by then runs its callback
  \<open>fire\<close>, in the order of the \<open>setTimeout\<close> calls, and is pending no longer. A timer
  runs at its due time.
\<close>

definition advance ::
  "(('p, 'z) host_scheme \<Rightarrow> nat \<times> int \<times> 'p \<Rightarrow> ('p, 'z) host_scheme)
     \<Rightarrow> int \<Rightarrow> ('p, 'z) host_scheme \<Rightarrow> ('p, 'z) host_scheme" where
  "advance fire t h =
     foldl (\<lambda>s x. fire (s\<lparr>fired := fired s @ [fst x]\<rparr>) x)
       (h\<lparr>pending := filter (\<lambda>x. \<not> fst (snd x) \<le> t) (pending h)\<rparr>)
       (filter (\<lambda>x. fst (snd x) \<le> t) (pending h))"

text \<open>No handle is lost: each handle handed out is pending, has fired or was cancelled.\<close>

definition accounted :: "('p, 'z) host_scheme \<Rightarrow> bool" where
  "accounted h =
     list_all (\<lambda>i. i \<in> set (map fst (pending h)) \<or> i \<in> set (fired h) \<or> i \<in> set (cancelled h))
       [0..<nextId h]"

text \<open>
  The slot \<open>ho\<close> of an instance (the handle its cleanup will clear) covers the timers:
  nothing is pending, or exactly the timer the slot names.
\<close>

definition single_slot :: "nat option \<Rightarrow> ('p, 'z) host_scheme \<Rightarrow> bool" where
  "single_slot ho h = (case pending h of [] \<Rightarrow> True | [x] \<Rightarrow> ho = Some (fst x) | _ \<Rightarrow> False)"

section \<open>The debounce hook\<close>

text \<open>
  Source: \<^verbatim>\<open>src/components/DebounceThrottleExamples.jsx\<close>, lines 57-71.
  \<^verbatim>\<open>
  function useDebounce(value, delay) {
    const [debouncedValue, setDebouncedValue] = useState(value);
    useEffect(() => {
      const handler = setTimeout(() => {
        setDebouncedValue(value);
      }, delay);
      return () => {
        clearTimeout(handler);
      };
    }, [value, delay]);
    return debouncedValue;
  }
  \<close>
  An instance holds the state \<open>debouncedValue\<close>, the dependencies \<open>[value, delay]\<close> of
  the effect's last run, and the handle captured by the cleanup closure of that run.
  React runs the effect after the first render and after every render whose
  dependencies differ from those of the last run, calling the previous cleanup first;
  on unmount it calls the cleanup. The timer's closure captures \<open>value\<close>; when it runs,
  it sets the state. \<open>calls\<close> logs the calls of \<open>setDebouncedValue\<close> (time and value),
  \<open>changes\<close> those that changed the state, that is, the output of the hook.
\<close>

record 'a debounce = "'a host" +
  debouncedValue :: 'a
  deps :: "'a \<times> int"
  handler :: "nat option"
  calls :: "(int \<times> 'a) list"
  changes :: "(int \<times> 'a) list"

definition cleanup :: "'a debounce \<Rightarrow> 'a debounce" where
  "cleanup st = clearTimeout (handler st) st"

definition effect :: "'a \<Rightarrow> int \<Rightarrow> int \<Rightarrow> 'a debounce \<Rightarrow> 'a debounce" where
  "effect v delay now st =
     (case setTimeout v delay now st of (h, st') \<Rightarrow> st'\<lparr>deps := (v, delay), handler := Some h\<rparr>)"

text \<open>First render at time \<open>now\<close>: \<open>useState(value)\<close>, then the effect.\<close>

definition useDebounce_mount :: "'a \<Rightarrow> int \<Rightarrow> int \<Rightarrow> 'a debounce" where
  "useDebounce_mount v delay now =
     effect v delay now
       \<lparr>pending = [], nextId = 0, fired = [], cancelled = [],
        debouncedValue = v, deps = (v, delay), handler = None, calls = [], changes = []\<rparr>"

text \<open>As for the throttle: nothing in the hook rejects a delay.\<close>

definition useDebounce_construct :: "'a \<Rightarrow> int \<Rightarrow> int \<Rightarrow> 'a debounce option" where
  "useDebounce_construct v delay now = Some (useDebounce_mount v delay now)"

text \<open>A later render at time \<open>now\<close>; the hook returns \<open>debouncedValue\<close>.\<close>

definition useDebounce_render :: "'a \<Rightarrow> int \<Rightarrow> int \<Rightarrow> 'a debounce \<Rightarrow> 'a debounce" where
  "useDebounce_render v delay now st =
     (if deps st = (v, delay) then st else effect v delay now (cleanup st))"

text \<open>The timer's callback \<open>() => { setDebouncedValue(value); }\<close>, run at the due time.\<close>

definition timer_callback :: "'a debounce \<Rightarrow> nat \<times> int \<times> 'a \<Rightarrow> 'a debounce" where
  "timer_callback st x =
     st\<lparr>debouncedValue := snd (snd x),
        calls := calls st @ [(fst (snd x), snd (snd x))],
        changes := (if snd (snd x) = debouncedValue st then changes st
                    else changes st @ [(fst (snd x), snd (snd x))])\<rparr>"

definition useDebounce_unmount :: "'a debounce \<Rightarrow> 'a debounce" where
  "useDebounce_unmount st = cleanup st"

text \<open>
  A run of the instance: renders with the values \<open>v\<close> at the times \<open>t\<close>; before each
  render the timers due by then have run.
\<close>

fun run_debounce :: "int \<Rightarrow> (int \<times> 'a) list \<Rightarrow> 'a debounce \<Rightarrow> 'a debounce" where
  "run_debounce delay [] st = st"
| "run_debounce delay (e # evs) st =
     run_debounce delay evs (useDebounce_render (snd e) delay (fst e) (advance timer_callback (fst e) st))"

text \<open>
  What the specification expects of a run. The new inputs are the renders whose value
  differs from the one before; an input is settled when no new input follows within
  \<open>d\<close> ms (up to the end \<open>T\<close> of the observation); an output change is an emitted value
  that differs from the output so far.
\<close>

fun new_inputs :: "'a \<Rightarrow> (int \<times> 'a) list \<Rightarrow> (int \<times> 'a) list" where
  "new_inputs v [] = []"
| "new_inputs v (e # evs) = (if snd e = v then new_inputs v evs else e # new_inputs (snd e) evs)"

fun settled :: "int \<Rightarrow> (int \<times> 'a) list \<Rightarrow> int \<Rightarrow> (int \<times> 'a) list" where
  "settled d [] T = []"
| "settled d [e] T = (if fst e + d \<le> T then [e] else [])"
| "settled d (e # e' # evs) T =
     (if fst e + d \<le> fst e' then [e] else []) @ settled d (e' # evs) T"

fun value_changes :: "'a \<Rightarrow> (int \<times> 'a) list \<Rightarrow> (int \<times> 'a) list" where
  "value_changes v [] = []"
| "value_changes v (e # es) = (if snd e = v then value_changes v es else e # value_changes (snd e) es)"

definition emit :: "int \<Rightarrow> int \<times> 'a \<Rightarrow> int \<times> 'a" where
  "emit d e = (fst e + d, snd e)"

section \<open>The debounce inside the window-size hook\<close>

text \<open>
  Source: \<^verbatim>\<open>src/components/CustomHooksExamples.jsx\<close>, lines 367-396.
  \<^verbatim>\<open>
  useEffect(() => {
    let timeoutId = null;
    const handleResize = () => {
      clearTimeout(timeoutId);
      timeoutId = setTimeout(() => {
        setWindowSize({ width: window.innerWidth, height: window.innerHeight });
      }, 100);
    };
    window.addEventListener("resize", handleResize);
    return () => {
      window.removeEventListener("resize", handleResize);
      clearTimeout(timeoutId);
    };
  }, []);
  \<close>
  \<open>window\<close> is the size the host reports; the timer's callback reads it when it runs.
\<close>

record winsize = "unit host" +
  windowSize :: "int \<times> int"
  window :: "int \<times> int"
  timeoutId :: "nat option"
  listening :: bool

definition useWindowSize_mount :: "int \<times> int \<Rightarrow> winsize" where
  "useWindowSize_mount dims =
     \<lparr>pending = [], nextId = 0, fired = [], cancelled = [],
      windowSize = dims, window = dims, timeoutId = None, listening = True\<rparr>"

definition handleResize :: "int \<Rightarrow> winsize \<Rightarrow> winsize" where
  "handleResize now st =
     (case setTimeout () 100 now (clearTimeout (timeoutId st) st) of
        (h, st') \<Rightarrow> st'\<lparr>timeoutId := Some h\<rparr>)"

text \<open>The host resizes the window at time \<open>now\<close> and dispatches the event.\<close>

definition resize :: "int \<times> int \<Rightarrow> int \<Rightarrow> winsize \<Rightarrow> winsize" where
  "resize dims now st =
     (if listening st then handleResize now (st\<lparr>window := dims\<rparr>) else st\<lparr>window := dims\<rparr>)"

definition resize_callback :: "winsize \<Rightarrow> nat \<times> int \<times> unit \<Rightarrow> winsize" where
  "resize_callback st x = st\<lparr>windowSize := window st\<rparr>"

definition useWindowSize_unmount :: "winsize \<Rightarrow> winsize" where
  "useWindowSize_unmount st = clearTimeout (timeoutId st) (st\<lparr>listening := False\<rparr>)"

fun run_winsize :: "(int \<times> int \<times> int) list \<Rightarrow> winsize \<Rightarrow> winsize" where
  "run_winsize [] st = st"
| "run_winsize (e # evs) st =
     run_winsize evs (resize (snd e) (fst e) (advance resize_callback (fst e) st))"

section \<open>Properties of the throttle hook\<close>

subsection \<open>One call\<close>

lemma request_dropped:
  "now1 - lastRun st < delay \<Longrightarrow> request delay cb now1 now2 (st, c) = (Dropped, st, c)"
  by (simp add: request_def)

lemma request_executed:
  "delay \<le> now1 - lastRun st \<Longrightarrow> fst (cb c) = None \<Longrightarrow>
   request delay cb now1 now2 (st, c) = (Executed, st\<lparr>lastRun := now2\<rparr>, snd (cb c))"
  by (cases "cb c") (auto simp: request_def)

lemma request_raised:
  "delay \<le> now1 - lastRun st \<Longrightarrow> fst (cb c) = Some e \<Longrightarrow>
   request delay cb now1 now2 (st, c) = (Raised e, st, snd (cb c))"
  by (cases "cb c") (auto simp: request_def)


lemma request_cases:
  obtains (dropped) "now1 - lastRun st < delay" "request delay cb now1 now2 (st, c) = (Dropped, st, c)"
  | (raised) e where "delay \<le> now1 - lastRun st" "request delay cb now1 now2 (st, c) = (Raised e, st, snd (cb c))"
  | (executed) "delay \<le> now1 - lastRun st"
      "request delay cb now1 now2 (st, c) = (Executed, st\<lparr>lastRun := now2\<rparr>, snd (cb c))"
proof (cases "now1 - lastRun st < delay")
  case True
  then show ?thesis using dropped by (simp add: request_dropped)
next
  case False
  then have g: "delay \<le> now1 - lastRun st" by simp
  show ?thesis
  proof (cases "fst (cb c)")
    case None
    then show ?thesis using executed g by (simp add: request_executed)
  next
    case (Some e)
    then show ?thesis using raised g by (simp add: request_raised)
  qed
qed

subsection \<open>Sequences of calls\<close>

lemma run_Cons_fst:
  "fst (run_requests delay cb (r # rs) s) =
     (fst r, snd r, fst (request delay cb (fst r) (snd r) s))
       # fst (run_requests delay cb rs (snd (request delay cb (fst r) (snd r) s)))"
  by (simp split: prod.splits)

lemma run_Cons_snd:
  "snd (run_requests delay cb (r # rs) s) =
     snd (run_requests delay cb rs (snd (request delay cb (fst r) (snd r) s)))"
  by (simp split: prod.splits)

lemma executions_subset: "set (executions (fst (run_requests delay cb rs s))) \<subseteq> set rs"
proof (induction rs arbitrary: s)
  case Nil
  then show ?case by simp
next
  case (Cons r rs)
  have "set (executions (fst (run_requests delay cb rs (snd (request delay cb (fst r) (snd r) s)))))
      \<subseteq> set rs" by (rule Cons.IH)
  then show ?case by (auto simp: run_Cons_fst simp del: run_requests.simps)
qed

lemma run_all_dropped:
  "\<forall>r\<in>set rs. fst r - lastRun st < delay \<Longrightarrow>
   run_requests delay cb rs (st, c) = (map (\<lambda>r. (fst r, snd r, Dropped)) rs, st, c)"
  by (induction rs) (simp_all add: request_dropped)

lemma executions_dropped: "executions (map (\<lambda>r. (fst r, snd r, Dropped)) rs) = []"
  by (induction rs) simp_all

lemma run_spaced_aux:
  assumes "\<forall>r\<in>set rs. fst r \<le> snd r"
  shows "(case executions (fst (run_requests delay cb rs (st, c))) of
            [] \<Rightarrow> True | e # es \<Rightarrow> delay \<le> fst e - lastRun st)
         \<and> spaced delay (executions (fst (run_requests delay cb rs (st, c))))"
  using assms
proof (induction rs arbitrary: st c)
  case Nil
  then show ?case by simp
next
  case (Cons r rs)
  then have mono: "\<forall>r\<in>set rs. fst r \<le> snd r" and r: "fst r \<le> snd r" by simp_all
  show ?case
  proof (cases rule: request_cases [of "fst r" st delay cb "snd r" c])
    case dropped
    then show ?thesis using Cons.IH [OF mono, of st c]
      by (simp add: run_Cons_fst del: run_requests.simps)
  next
    case (raised e)
    then show ?thesis using Cons.IH [OF mono, of st "snd (cb c)"]
      by (simp add: run_Cons_fst del: run_requests.simps)
  next
    case executed
    let ?st = "st\<lparr>lastRun := snd r\<rparr>"
    let ?ex = "executions (fst (run_requests delay cb rs (?st, snd (cb c))))"
    have ih: "(case ?ex of [] \<Rightarrow> True | e # es \<Rightarrow> delay \<le> fst e - snd r) \<and> spaced delay ?ex"
      using Cons.IH [OF mono, of ?st "snd (cb c)"] by (auto split: list.splits)
    have ex: "executions (fst (run_requests delay cb (r # rs) (st, c))) = (fst r, snd r) # ?ex"
      using executed by (simp add: run_Cons_fst del: run_requests.simps)
    have le: "\<forall>e\<in>set ?ex. fst e \<le> snd e"
      using mono executions_subset [of delay cb rs "(?st, snd (cb c))"] by blast
    show ?thesis
    proof (cases ?ex)
      case Nil
      then show ?thesis using ex executed by simp
    next
      case (Cons e es)
      then have "fst e \<le> snd e" using le by simp
      then show ?thesis using ex executed ih r Cons by simp
    qed
  qed
qed

lemma run_lastRun:
  "lastRun (fst (snd (run_requests delay cb rs (st, c)))) =
     (case executions (fst (run_requests delay cb rs (st, c))) of
        [] \<Rightarrow> lastRun st | e # es \<Rightarrow> snd (last (e # es)))"
proof (induction rs arbitrary: st c)
  case Nil
  then show ?case by simp
next
  case (Cons r rs)
  show ?case
  proof (cases rule: request_cases [of "fst r" st delay cb "snd r" c])
    case dropped
    then show ?thesis using Cons.IH [of st c]
      by (simp add: run_Cons_fst run_Cons_snd del: run_requests.simps)
  next
    case (raised e)
    then show ?thesis using Cons.IH [of st "snd (cb c)"]
      by (simp add: run_Cons_fst run_Cons_snd del: run_requests.simps)
  next
    case executed
    then show ?thesis using Cons.IH [of "st\<lparr>lastRun := snd r\<rparr>" "snd (cb c)"]
      by (simp add: run_Cons_fst run_Cons_snd del: run_requests.simps split: list.splits)
  qed
qed

subsection \<open>Bursts\<close>

text \<open>
  C1 (as amended). The hook schedules nothing: it never calls \<open>setTimeout\<close>. When
  a call executes and further calls arrive less than \<open>delay\<close> ms after its recorded
  fire time, each of them is dropped and the callback runs once, for the leading call
  only; the recorded fire time stays that of the leading call.
\<close>

theorem throttle_burst_leading_only:
  assumes "delay \<le> t1 - lastRun st" and "fst (cb c) = None"
    and "\<forall>r\<in>set rest. fst r - t2 < delay"
  shows "run_requests delay cb ((t1, t2) # rest) (st, c) =
           ((t1, t2, Executed) # map (\<lambda>r. (fst r, snd r, Dropped)) rest,
            st\<lparr>lastRun := t2\<rparr>, snd (cb c))
         \<and> executions (fst (run_requests delay cb ((t1, t2) # rest) (st, c))) = [(t1, t2)]"
proof -
  have "\<forall>r\<in>set rest. fst r - lastRun (st\<lparr>lastRun := t2\<rparr>) < delay"
    using assms(3) by simp
  then have "run_requests delay cb rest (st\<lparr>lastRun := t2\<rparr>, snd (cb c)) =
      (map (\<lambda>r. (fst r, snd r, Dropped)) rest, st\<lparr>lastRun := t2\<rparr>, snd (cb c))"
    by (rule run_all_dropped)
  then show ?thesis
    using assms(1,2) by (simp add: request_executed executions_dropped)
qed

theorem throttle_burst_leading_only_witness:
  "run_requests 100 count_up [(0, 0), (10, 10), (20, 20), (30, 30)] (useThrottle 100 (- 100), 0) =
     ([(0, 0, Executed), (10, 10, Dropped), (20, 20, Dropped), (30, 30, Dropped)],
      \<lparr>lastRun = 0\<rparr>, 1)"
  using throttle_burst_leading_only [of 100 0 "useThrottle 100 (- 100)" count_up 0
      "[(10, 10), (20, 20), (30, 30)]" 0]
  by (simp add: useThrottle_def count_up_def)

text \<open>
  The burst of the specification, calls at 0, 10, 20 and 30 with a delay of 100 on an
  instance created at -100: the callback runs once, not twice.
\<close>

theorem throttle_burst_counterexample:
  "executions (fst (run_requests 100 count_up [(0, 0), (10, 10), (20, 20), (30, 30)]
      (useThrottle 100 (- 100), 0))) = [(0, 0)]
   \<and> length (executions (fst (run_requests 100 count_up [(0, 0), (10, 10), (20, 20), (30, 30)]
      (useThrottle 100 (- 100), 0)))) \<noteq> 2
   \<and> snd (snd (run_requests 100 count_up [(0, 0), (10, 10), (20, 20), (30, 30)]
      (useThrottle 100 (- 100), 0))) = 1"
  by (simp add: request_def useThrottle_def count_up_def)

subsection \<open>The first call\<close>

text \<open>
  C2 (as amended). \<open>lastRun\<close> starts as the time of instantiation, so the first call
  is treated like any other. It runs the callback, once and within the call, exactly
  when it comes at least \<open>delay\<close> ms after the instantiation: if the callback
  returns, the fire time is recorded; if it throws, the exception leaves the call and
  \<open>lastRun\<close> stays the time of instantiation. When the call comes earlier it is
  dropped: the callback is not run and nothing changes.
\<close>

theorem throttle_first_request:
  "(delay \<le> now1 - t0 \<longrightarrow>
      snd (snd (request delay cb now1 now2 (useThrottle delay t0, c))) = snd (cb c)
      \<and> (fst (cb c) = None \<longrightarrow>
            request delay cb now1 now2 (useThrottle delay t0, c) =
              (Executed, \<lparr>lastRun = now2\<rparr>, snd (cb c)))
      \<and> (\<forall>e. fst (cb c) = Some e \<longrightarrow>
            request delay cb now1 now2 (useThrottle delay t0, c) =
              (Raised e, \<lparr>lastRun = t0\<rparr>, snd (cb c))))
   \<and> (now1 - t0 < delay \<longrightarrow>
      request delay cb now1 now2 (useThrottle delay t0, c) = (Dropped, \<lparr>lastRun = t0\<rparr>, c))"
proof (cases "now1 - t0 < delay")
  case True
  then show ?thesis by (simp add: request_dropped useThrottle_def)
next
  case False
  then have g: "delay \<le> now1 - lastRun (useThrottle delay t0)" by (simp add: useThrottle_def)
  show ?thesis
  proof (cases "fst (cb c)")
    case None
    then show ?thesis
      using g request_executed [where delay = delay and ?now1.0 = now1 and st = "useThrottle delay t0"
          and cb = cb and c = c and ?now2.0 = now2] False
      by (simp add: useThrottle_def)
  next
    case (Some e)
    then show ?thesis
      using g request_raised [where delay = delay and ?now1.0 = now1 and st = "useThrottle delay t0"
          and cb = cb and c = c and e = e and ?now2.0 = now2] False
      by (simp add: useThrottle_def)
  qed
qed

theorem throttle_first_request_witness:
  "request 1000 count_up 1000 1001 (useThrottle 1000 0, 0) = (Executed, \<lparr>lastRun = 1001\<rparr>, 1)
   \<and> request 1000 failing 1000 1001 (useThrottle 1000 0, 7) = (Raised ''boom'', \<lparr>lastRun = 0\<rparr>, 7)
   \<and> request 1000 count_up 999 1000 (useThrottle 1000 0, 0) = (Dropped, \<lparr>lastRun = 0\<rparr>, 0)"
  using throttle_first_request [where delay = 1000 and ?now1.0 = 1000 and ?t0.0 = 0
      and ?now2.0 = 1001 and cb = count_up and c = 0]
    throttle_first_request [where delay = 1000 and ?now1.0 = 1000 and ?t0.0 = 0
      and ?now2.0 = 1001 and cb = failing and c = 7]
    throttle_first_request [where delay = 1000 and ?now1.0 = 999 and ?t0.0 = 0
      and ?now2.0 = 1000 and cb = count_up and c = 0]
  by (simp add: count_up_def failing_def)

text \<open>A first call 10 ms after instantiation, with a delay of 100, is dropped.\<close>

theorem throttle_first_request_counterexample:
  "request 100 count_up 10 10 (useThrottle 100 0, 0) = (Dropped, \<lparr>lastRun = 0\<rparr>, 0)"
  by (simp add: request_def useThrottle_def)

subsection \<open>The window\<close>

lemma run_windowed:
  "windowed delay (lastRun st) (fst (run_requests delay cb rs (st, c)))"
proof (induction rs arbitrary: st c)
  case Nil
  then show ?case by simp
next
  case (Cons r rs)
  show ?case
  proof (cases rule: request_cases [of "fst r" st delay cb "snd r" c])
    case dropped
    then show ?thesis using Cons.IH [of st c]
      by (simp add: run_Cons_fst del: run_requests.simps)
  next
    case (raised e)
    then show ?thesis using Cons.IH [of st "snd (cb c)"]
      by (simp add: run_Cons_fst del: run_requests.simps)
  next
    case executed
    then show ?thesis using Cons.IH [of "st\<lparr>lastRun := snd r\<rparr>" "snd (cb c)"]
      by (simp add: run_Cons_fst del: run_requests.simps)
  qed
qed

lemma run_lastRun_last:
  "lastRun (fst (snd (run_requests delay cb rs (st, c)))) =
     snd (last ((0, lastRun st) # executions (fst (run_requests delay cb rs (st, c)))))"
  using run_lastRun [where delay = delay and cb = cb and rs = rs and st = st and c = c]
  by (simp split: list.splits)

lemma request_at_boundary:
  "request delay cb (lastRun st + delay) now2 (st, c) =
     (case fst (cb c) of
        None \<Rightarrow> (Executed, st\<lparr>lastRun := now2\<rparr>, snd (cb c))
      | Some e \<Rightarrow> (Raised e, st, snd (cb c)))"
proof (cases "fst (cb c)")
  case None
  then show ?thesis using request_executed [of delay "lastRun st + delay" st cb c now2] by simp
next
  case (Some e)
  then show ?thesis using request_raised [of delay "lastRun st + delay" st cb c e now2] by simp
qed

text \<open>
  C3 (as amended). In every sequence of calls, with any callback and any clock
  readings, a call is dropped only when its guard reading is less than \<open>delay\<close> ms
  after the last recorded fire time, and every call that runs the callback starts at
  least \<open>delay\<close> ms after it. The recorded fire time is the reading stored after the
  callback of the latest call that returned normally (the time of instantiation when
  there is none); a call whose callback throws records nothing. A call exactly
  \<open>delay\<close> ms after the last recorded fire time runs the callback, once and at once.
  When no call's second reading precedes its first, two successive completed
  executions are moreover at least \<open>delay\<close> ms apart from start to start and from
  recorded time to recorded time.
\<close>

theorem throttle_window:
  "windowed delay (lastRun st) (fst (run_requests delay cb rs (st, c)))
   \<and> lastRun (fst (snd (run_requests delay cb rs (st, c)))) =
       snd (last ((0, lastRun st) # executions (fst (run_requests delay cb rs (st, c)))))
   \<and> request delay cb
        (snd (last ((0, lastRun st) # executions (fst (run_requests delay cb rs (st, c))))) + delay)
        now2 (snd (run_requests delay cb rs (st, c))) =
       (case fst (cb (snd (snd (run_requests delay cb rs (st, c))))) of
          None \<Rightarrow> (Executed, (fst (snd (run_requests delay cb rs (st, c))))\<lparr>lastRun := now2\<rparr>,
                   snd (cb (snd (snd (run_requests delay cb rs (st, c))))))
        | Some e \<Rightarrow> (Raised e, fst (snd (run_requests delay cb rs (st, c))),
                   snd (cb (snd (snd (run_requests delay cb rs (st, c)))))))
   \<and> (list_all (\<lambda>r. fst r \<le> snd r) rs \<longrightarrow>
        spaced delay (executions (fst (run_requests delay cb rs (st, c)))))"
proof -
  let ?R = "run_requests delay cb rs (st, c)"
  have l: "lastRun (fst (snd ?R)) = snd (last ((0, lastRun st) # executions (fst ?R)))"
    by (rule run_lastRun_last)
  have "request delay cb (lastRun (fst (snd ?R)) + delay) now2 (fst (snd ?R), snd (snd ?R)) =
     (case fst (cb (snd (snd ?R))) of
        None \<Rightarrow> (Executed, (fst (snd ?R))\<lparr>lastRun := now2\<rparr>, snd (cb (snd (snd ?R))))
      | Some e \<Rightarrow> (Raised e, fst (snd ?R), snd (cb (snd (snd ?R)))))"
    by (rule request_at_boundary)
  then have b: "request delay cb (snd (last ((0, lastRun st) # executions (fst ?R))) + delay) now2 (snd ?R) =
     (case fst (cb (snd (snd ?R))) of
        None \<Rightarrow> (Executed, (fst (snd ?R))\<lparr>lastRun := now2\<rparr>, snd (cb (snd (snd ?R))))
      | Some e \<Rightarrow> (Raised e, fst (snd ?R), snd (cb (snd (snd ?R)))))"
    unfolding l by simp
  have sp: "list_all (\<lambda>r. fst r \<le> snd r) rs \<longrightarrow> spaced delay (executions (fst ?R))"
    using run_spaced_aux [where rs = rs and delay = delay and cb = cb and st = st and c = c]
    by (simp add: list_all_iff)
  have w: "windowed delay (lastRun st) (fst ?R)" by (rule run_windowed)
  show ?thesis using w l b sp by blast
qed

theorem throttle_window_witness:
  "list_all (\<lambda>r. fst r \<le> snd r) [(0, 1), (50, 50), (101, 103), (150, 150), (203, 203::int)]
   \<and> fst (run_requests 100 count_up [(0, 1), (50, 50), (101, 103), (150, 150), (203, 203)]
        (useThrottle 100 (- 100), 0)) =
       [(0, 1, Executed), (50, 50, Dropped), (101, 103, Executed), (150, 150, Dropped),
        (203, 203, Executed)]
   \<and> windowed 100 (- 100)
       [(0, 1, Executed), (50, 50, Dropped), (101, 103, Executed), (150, 150, Dropped),
        (203, 203, Executed :: unit outcome)]
   \<and> spaced 100 [(0, 1), (101, 103), (203, 203)]
   \<and> request 100 count_up 303 304 (\<lparr>lastRun = 203\<rparr>, 3) = (Executed, \<lparr>lastRun = 304\<rparr>, 4)"
  using throttle_window [where rs = "[(0, 1), (50, 50), (101, 103), (150, 150), (203, 203)]"
      and delay = 100 and cb = count_up and st = "useThrottle 100 (- 100)" and c = 0 and ?now2.0 = 304]
  by (simp add: request_def useThrottle_def count_up_def)

text \<open>
  Three runs with a delay of 100. A callback that throws at 500 runs again at 510,
  since nothing was recorded. A callback started at 0 whose fire time is recorded as
  1 makes the call at 100 a dropped one, although it comes exactly 100 ms after the
  start. A clock set back during the first call (guard reading 100, recorded 50)
  lets the next call run at 150, 50 ms after the first start.
\<close>

theorem throttle_window_counterexample:
  "fst (run_requests 100 failing [(500, 501), (510, 511)] (\<lparr>lastRun = 0\<rparr>, 7)) =
     [(500, 501, Raised ''boom''), (510, 511, Raised ''boom'')]
   \<and> fst (run_requests 100 count_up [(0, 1), (100, 100)] (\<lparr>lastRun = - 100\<rparr>, 0)) =
     [(0, 1, Executed), (100, 100, Dropped)]
   \<and> fst (run_requests 100 count_up [(100, 50), (150, 150)] (\<lparr>lastRun = 0\<rparr>, 0)) =
     [(100, 50, Executed), (150, 150, Executed)]"
  by (simp add: request_def count_up_def failing_def)



subsection \<open>Exceptions\<close>

text \<open>
  C8. The throttled function has no \<open>try\<close>: when the guard passes and the callback
  throws \<open>e\<close>, the call ends with that same \<open>e\<close>, \<open>lastRun\<close> is not updated, and the
  calls that follow are made as usual. (The debounce hook calls nothing of its
  consumer: its timer only sets the state.)
\<close>

theorem throttle_exception_propagates:
  assumes "delay \<le> now1 - lastRun st" and "fst (cb c) = Some e"
  shows "request delay cb now1 now2 (st, c) = (Raised e, st, snd (cb c))
    \<and> fst (run_requests delay cb ((now1, now2) # rs) (st, c)) =
        (now1, now2, Raised e) # fst (run_requests delay cb rs (st, snd (cb c)))"
  using assms by (simp add: request_raised split: prod.splits)

theorem throttle_exception_propagates_witness:
  "(100::int) \<le> 500 - lastRun \<lparr>lastRun = 0\<rparr> \<and> fst (failing 7) = Some ''boom''
   \<and> request 100 failing 500 501 (\<lparr>lastRun = 0\<rparr>, 7) = (Raised ''boom'', \<lparr>lastRun = 0\<rparr>, 7)"
  using throttle_exception_propagates [of 100 500 "\<lparr>lastRun = 0\<rparr>" failing 7 "''boom''" 501 "[]"]
  by (simp add: failing_def)

section \<open>Properties of the timers and of the debounce hooks\<close>

subsection \<open>The host's timers\<close>

lemma advance_Nil: "pending h = [] \<Longrightarrow> advance fire t h = h"
  by (simp add: advance_def)

lemma advance_single_due:
  "pending h = [x] \<Longrightarrow> fst (snd x) \<le> t \<Longrightarrow>
   advance fire t h = fire (h\<lparr>pending := [], fired := fired h @ [fst x]\<rparr>) x"
  by (simp add: advance_def)

lemma advance_single_not_due:
  "pending h = [x] \<Longrightarrow> \<not> fst (snd x) \<le> t \<Longrightarrow> advance fire t h = h"
  by (simp add: advance_def)

lemma keeps_host_timer_callback:
  "pending (timer_callback s x) = pending s \<and> nextId (timer_callback s x) = nextId s
     \<and> fired (timer_callback s x) = fired s \<and> cancelled (timer_callback s x) = cancelled s"
  by (simp add: timer_callback_def)

lemma keeps_host_resize_callback:
  "pending (resize_callback s x) = pending s \<and> nextId (resize_callback s x) = nextId s
     \<and> fired (resize_callback s x) = fired s \<and> cancelled (resize_callback s x) = cancelled s"
  by (simp add: resize_callback_def)

lemma foldl_fire_host:
  assumes "\<And>s x. pending (fire s x) = pending s \<and> nextId (fire s x) = nextId s
      \<and> fired (fire s x) = fired s \<and> cancelled (fire s x) = cancelled s"
  shows "pending (foldl (\<lambda>s x. fire (s\<lparr>fired := fired s @ [fst x]\<rparr>) x) s xs) = pending s
    \<and> nextId (foldl (\<lambda>s x. fire (s\<lparr>fired := fired s @ [fst x]\<rparr>) x) s xs) = nextId s
    \<and> cancelled (foldl (\<lambda>s x. fire (s\<lparr>fired := fired s @ [fst x]\<rparr>) x) s xs) = cancelled s
    \<and> fired (foldl (\<lambda>s x. fire (s\<lparr>fired := fired s @ [fst x]\<rparr>) x) s xs) = fired s @ map fst xs"
  by (induction xs arbitrary: s) (simp_all add: assms)

lemma advance_host:
  assumes "\<And>s x. pending (fire s x) = pending s \<and> nextId (fire s x) = nextId s
      \<and> fired (fire s x) = fired s \<and> cancelled (fire s x) = cancelled s"
  shows "pending (advance fire t h) = filter (\<lambda>x. \<not> fst (snd x) \<le> t) (pending h)"
    and "nextId (advance fire t h) = nextId h"
    and "cancelled (advance fire t h) = cancelled h"
    and "fired (advance fire t h) = fired h @ map fst (filter (\<lambda>x. fst (snd x) \<le> t) (pending h))"
  using foldl_fire_host [where fire = fire, OF assms] by (simp_all add: advance_def)

lemma accounted_advance:
  assumes "\<And>s x. pending (fire s x) = pending s \<and> nextId (fire s x) = nextId s
      \<and> fired (fire s x) = fired s \<and> cancelled (fire s x) = cancelled s" and "accounted h"
  shows "accounted (advance fire t h)"
  using assms(2) by (auto simp: accounted_def list_all_iff advance_host [where fire = fire, OF assms(1)])

lemma accounted_clearTimeout: "accounted h \<Longrightarrow> accounted (clearTimeout ho h)"
  by (auto simp: accounted_def list_all_iff clearTimeout_def)

lemma accounted_setTimeout: "accounted h \<Longrightarrow> accounted (snd (setTimeout p d now h))"
  by (auto simp: accounted_def list_all_iff setTimeout_def less_Suc_eq)

lemma single_slot_length: "single_slot ho h \<Longrightarrow> length (pending h) \<le> 1"
  by (auto simp: single_slot_def split: list.splits)

lemma single_slot_advance:
  assumes "\<And>s x. pending (fire s x) = pending s \<and> nextId (fire s x) = nextId s
      \<and> fired (fire s x) = fired s \<and> cancelled (fire s x) = cancelled s" and "single_slot ho h"
  shows "single_slot ho (advance fire t h)"
  using assms(2) by (auto simp: single_slot_def advance_host [where fire = fire, OF assms(1)] split: list.splits)

lemma single_slot_clearTimeout: "single_slot ho h \<Longrightarrow> pending (clearTimeout ho h) = []"
  by (auto simp: single_slot_def clearTimeout_def split: list.splits)

lemma foldl_fire_keeps:
  assumes "\<And>s x. g (fire s x) = g s" and "\<And>s f. g (s\<lparr>fired := f\<rparr>) = g s"
  shows "g (foldl (\<lambda>s x. fire (s\<lparr>fired := fired s @ [fst x]\<rparr>) x) s xs) = g s"
  by (induction xs arbitrary: s) (simp_all add: assms)

lemma advance_keeps:
  assumes "\<And>s x. g (fire s x) = g s" and "\<And>s f. g (s\<lparr>fired := f\<rparr>) = g s"
    and "\<And>s p. g (s\<lparr>pending := p\<rparr>) = g s"
  shows "g (advance fire t h) = g h"
  unfolding advance_def by (simp add: foldl_fire_keeps [of g fire, OF assms(1,2)] assms(3))

lemma advance_handler: "handler (advance timer_callback t st) = handler st"
  by (rule advance_keeps) (simp_all add: timer_callback_def)

lemma advance_deps: "deps (advance timer_callback t st) = deps st"
  by (rule advance_keeps) (simp_all add: timer_callback_def)

lemma advance_timeoutId: "timeoutId (advance resize_callback t st) = timeoutId st"
  by (rule advance_keeps) (simp_all add: resize_callback_def)

lemma advance_listening: "listening (advance resize_callback t st) = listening st"
  by (rule advance_keeps) (simp_all add: resize_callback_def)

subsection \<open>Reachable states of the debounce hook\<close>

lemma cleanup_fields:
  "handler (cleanup st) = handler st" "deps (cleanup st) = deps st"
  "debouncedValue (cleanup st) = debouncedValue st" "calls (cleanup st) = calls st"
  "changes (cleanup st) = changes st" "nextId (cleanup st) = nextId st"
  "fired (cleanup st) = fired st"
  by (simp_all add: cleanup_def clearTimeout_def)

lemma effect_fields:
  "pending (effect v delay now st) = pending st @ [(nextId st, now + max 0 delay, v)]"
  "handler (effect v delay now st) = Some (nextId st)"
  "deps (effect v delay now st) = (v, delay)"
  "nextId (effect v delay now st) = Suc (nextId st)"
  "debouncedValue (effect v delay now st) = debouncedValue st"
  "calls (effect v delay now st) = calls st"
  "changes (effect v delay now st) = changes st"
  "fired (effect v delay now st) = fired st"
  "cancelled (effect v delay now st) = cancelled st"
  by (simp_all add: effect_def setTimeout_def)

lemma accounted_effect: "accounted st \<Longrightarrow> accounted (effect v delay now st)"
  by (auto simp: accounted_def list_all_iff effect_fields less_Suc_eq)

lemma accounted_cleanup: "accounted st \<Longrightarrow> accounted (cleanup st)"
  unfolding cleanup_def by (rule accounted_clearTimeout)

lemma pending_cleanup: "single_slot (handler st) st \<Longrightarrow> pending (cleanup st) = []"
  unfolding cleanup_def by (rule single_slot_clearTimeout)

lemma render_new:
  assumes "single_slot (handler st) st" and "deps st \<noteq> (v, delay)"
  shows "pending (useDebounce_render v delay now st) = [(nextId st, now + max 0 delay, v)]"
    and "handler (useDebounce_render v delay now st) = Some (nextId st)"
  using assms by (simp_all add: useDebounce_render_def effect_fields cleanup_fields pending_cleanup)

lemma single_slot_render:
  assumes "single_slot (handler st) st"
  shows "single_slot (handler (useDebounce_render v delay now st)) (useDebounce_render v delay now st)"
proof (cases "deps st = (v, delay)")
  case True
  then show ?thesis using assms by (simp add: useDebounce_render_def)
next
  case False
  then show ?thesis using render_new [OF assms False] by (simp add: single_slot_def)
qed

lemma accounted_render: "accounted st \<Longrightarrow> accounted (useDebounce_render v delay now st)"
  by (simp add: useDebounce_render_def accounted_effect accounted_cleanup)

lemma mount_inv:
  "single_slot (handler (useDebounce_mount v delay now)) (useDebounce_mount v delay now)"
  "accounted (useDebounce_mount v delay now)"
  by (simp_all add: useDebounce_mount_def single_slot_def accounted_def effect_fields)

lemma run_debounce_inv:
  assumes "single_slot (handler st) st" and "accounted st"
  shows "single_slot (handler (run_debounce delay evs st)) (run_debounce delay evs st)
    \<and> accounted (run_debounce delay evs st)"
  using assms
proof (induction evs arbitrary: st)
  case Nil
  then show ?case by simp
next
  case (Cons e evs)
  let ?a = "advance timer_callback (fst e) st"
  have "single_slot (handler ?a) ?a"
    using single_slot_advance [where fire = timer_callback, OF keeps_host_timer_callback Cons.prems(1)]
    by (simp add: advance_handler)
  moreover have "accounted ?a"
    by (rule accounted_advance [where fire = timer_callback, OF keeps_host_timer_callback Cons.prems(2)])
  ultimately show ?case
    using Cons.IH [of "useDebounce_render (snd e) delay (fst e) ?a"]
    by (simp add: single_slot_render accounted_render)
qed

lemma reachable_inv:
  "single_slot (handler (advance timer_callback t (run_debounce delay evs (useDebounce_mount v delay now))))
     (advance timer_callback t (run_debounce delay evs (useDebounce_mount v delay now)))"
  "accounted (advance timer_callback t (run_debounce delay evs (useDebounce_mount v delay now)))"
proof -
  let ?m = "useDebounce_mount v delay now"
  have "single_slot (handler (run_debounce delay evs ?m)) (run_debounce delay evs ?m)
    \<and> accounted (run_debounce delay evs ?m)"
    by (rule run_debounce_inv) (rule mount_inv)+
  then show
    "single_slot (handler (advance timer_callback t (run_debounce delay evs ?m)))
       (advance timer_callback t (run_debounce delay evs ?m))"
    "accounted (advance timer_callback t (run_debounce delay evs ?m))"
    using single_slot_advance [where fire = timer_callback, OF keeps_host_timer_callback, of "handler (run_debounce delay evs ?m)"
        "run_debounce delay evs ?m" t]
      accounted_advance [where fire = timer_callback, OF keeps_host_timer_callback, of "run_debounce delay evs ?m" t]
    by (simp_all add: advance_handler)
qed

lemma clearTimeout_idem: "clearTimeout ho (clearTimeout ho h) = clearTimeout ho h"
proof -
  have "filter (\<lambda>i. Some i = ho) (map fst (filter (\<lambda>x. Some (fst x) \<noteq> ho) (pending h))) = []"
    by (induction "pending h") (auto simp: filter_empty_conv)
  then show ?thesis by (simp add: clearTimeout_def)
qed

lemma unmount_idem: "useDebounce_unmount (useDebounce_unmount st) = useDebounce_unmount st"
  by (simp add: useDebounce_unmount_def cleanup_def clearTimeout_idem)
    (simp add: clearTimeout_def clearTimeout_idem [unfolded clearTimeout_def])

lemma cancelled_cleanup:
  "single_slot (handler st) st \<Longrightarrow> cancelled (cleanup st) = cancelled st @ map fst (pending st)"
  by (auto simp: single_slot_def cleanup_def clearTimeout_def split: list.splits)

subsection \<open>Reachable states of the window-size hook\<close>

lemma handleResize_fields:
  assumes "single_slot (timeoutId st) st"
  shows "pending (handleResize now st) = [(nextId st, now + 100, ())]"
    and "timeoutId (handleResize now st) = Some (nextId st)"
  using single_slot_clearTimeout [OF assms]
  by (simp_all add: handleResize_def setTimeout_def) (simp_all add: clearTimeout_def)

lemma single_slot_resize:
  assumes "single_slot (timeoutId st) st"
  shows "single_slot (timeoutId (resize dims now st)) (resize dims now st)"
proof -
  have w: "single_slot (timeoutId (st\<lparr>window := dims\<rparr>)) (st\<lparr>window := dims\<rparr>)"
    using assms by (simp add: single_slot_def)
  show ?thesis
    using w handleResize_fields [OF w, of now]
    by (simp add: resize_def) (simp add: single_slot_def)
qed

lemma run_winsize_inv:
  assumes "single_slot (timeoutId st) st"
  shows "single_slot (timeoutId (run_winsize evs st)) (run_winsize evs st)"
  using assms
proof (induction evs arbitrary: st)
  case Nil
  then show ?case by simp
next
  case (Cons e evs)
  let ?a = "advance resize_callback (fst e) st"
  have "single_slot (timeoutId ?a) ?a"
    using single_slot_advance [where fire = resize_callback, OF keeps_host_resize_callback Cons.prems]
    by (simp add: advance_timeoutId)
  then show ?case
    using Cons.IH [of "resize (snd e) (fst e) ?a"] by (simp add: single_slot_resize)
qed

lemma winsize_reachable_inv:
  "single_slot (timeoutId (advance resize_callback t (run_winsize evs (useWindowSize_mount dims))))
     (advance resize_callback t (run_winsize evs (useWindowSize_mount dims)))"
proof -
  let ?m = "useWindowSize_mount dims"
  have "single_slot (timeoutId ?m) ?m"
    by (simp add: useWindowSize_mount_def single_slot_def)
  then have "single_slot (timeoutId (run_winsize evs ?m)) (run_winsize evs ?m)"
    by (rule run_winsize_inv)
  then show ?thesis
    using single_slot_advance [where fire = resize_callback, OF keeps_host_resize_callback, of "timeoutId (run_winsize evs ?m)"
        "run_winsize evs ?m" t]
    by (simp add: advance_timeoutId)
qed

text \<open>
  C5. In every state an instance of \<open>useDebounce\<close> or of the debounce inside
  \<open>useWindowSize\<close> can reach (mounting, any renders or resize events, any passing of
  time) at most one timer is pending. A render with a new value, and every resize
  event, first cancels the pending timer, if there is one, and then schedules the
  replacement, which is the only timer pending afterwards; unmounting leaves none.
\<close>

theorem single_pending_handle:
  assumes "st = advance timer_callback t (run_debounce delay evs (useDebounce_mount v delay t0))"
    and "w = advance resize_callback t (run_winsize wevs (useWindowSize_mount dims))"
  shows "length (pending st) \<le> 1
    \<and> (deps st \<noteq> (v', delay) \<longrightarrow>
         pending (useDebounce_render v' delay t' st) = [(nextId st, t' + max 0 delay, v')]
         \<and> cancelled (useDebounce_render v' delay t' st) = cancelled st @ map fst (pending st))
    \<and> pending (useDebounce_unmount st) = []
    \<and> length (pending w) \<le> 1
    \<and> pending (handleResize t' w) = [(nextId w, t' + 100, ())]
    \<and> cancelled (handleResize t' w) = cancelled w @ map fst (pending w)
    \<and> pending (useWindowSize_unmount w) = []"
proof -
  have ss: "single_slot (handler st) st"
    unfolding assms by (rule reachable_inv)
  have ws: "single_slot (timeoutId w) w"
    unfolding assms by (rule winsize_reachable_inv)
  have ws': "single_slot (timeoutId (w\<lparr>listening := False\<rparr>)) (w\<lparr>listening := False\<rparr>)"
    using ws by (simp add: single_slot_def)
  have 1: "length (pending st) \<le> 1" using ss by (rule single_slot_length)
  have 2: "deps st \<noteq> (v', delay) \<longrightarrow>
         pending (useDebounce_render v' delay t' st) = [(nextId st, t' + max 0 delay, v')]
         \<and> cancelled (useDebounce_render v' delay t' st) = cancelled st @ map fst (pending st)"
    using ss by (simp add: useDebounce_render_def effect_fields cancelled_cleanup
        pending_cleanup cleanup_fields)
  have 3: "pending (useDebounce_unmount st) = []"
    using ss by (simp add: useDebounce_unmount_def pending_cleanup)
  have 4: "length (pending w) \<le> 1" using ws by (rule single_slot_length)
  have 5: "pending (handleResize t' w) = [(nextId w, t' + 100, ())]"
    using ws by (rule handleResize_fields)
  have 6: "cancelled (handleResize t' w) = cancelled w @ map fst (pending w)"
    using ws by (auto simp: handleResize_def setTimeout_def clearTimeout_def single_slot_def
        split: list.splits)
  have 7: "pending (useWindowSize_unmount w) = []"
    using single_slot_clearTimeout [OF ws'] by (simp add: useWindowSize_unmount_def)
  show ?thesis using 1 2 3 4 5 6 7 by blast
qed

theorem single_pending_handle_witness:
  "pending (advance timer_callback 160
      (run_debounce 200 [(100, ''b''), (150, ''c'')] (useDebounce_mount ''a'' 200 0))) = [(2, 350, ''c'')]
   \<and> pending (useDebounce_render ''d'' 200 170 (advance timer_callback 160
      (run_debounce 200 [(100, ''b''), (150, ''c'')] (useDebounce_mount ''a'' 200 0)))) = [(3, 370, ''d'')]
   \<and> pending (handleResize 170 (advance resize_callback 160
      (run_winsize [(100, (3, 4)), (150, (5, 6))] (useWindowSize_mount (1, 2))))) = [(2, 270, ())]"
  using single_pending_handle [of _ 160 200 "[(100, ''b''), (150, ''c'')]" "''a''" 0 _
      "[(100, (3, 4)), (150, (5, 6))]" "(1, 2)" "''d''" 170, OF refl refl]
  by (simp add: useDebounce_unmount_def useDebounce_mount_def useDebounce_render_def
      effect_def cleanup_def setTimeout_def clearTimeout_def advance_def timer_callback_def
      useWindowSize_unmount_def useWindowSize_mount_def resize_def handleResize_def
      resize_callback_def)

subsection \<open>The output of the debounce hook\<close>

lemma foldl_fire_value:
  "debouncedValue (foldl (\<lambda>s x. timer_callback (s\<lparr>fired := fired s @ [fst x]\<rparr>) x) s xs)
     \<in> insert (debouncedValue s) (set (map (\<lambda>x. snd (snd x)) xs))"
  by (induction xs arbitrary: s rule: rev_induct) (simp_all add: timer_callback_def)

lemma advance_value:
  "debouncedValue (advance timer_callback t st)
     \<in> insert (debouncedValue st) (set (map (\<lambda>x. snd (snd x)) (pending st)))"
proof -
  have "debouncedValue (advance timer_callback t st)
     \<in> insert (debouncedValue st)
         (set (map (\<lambda>x. snd (snd x)) (filter (\<lambda>x. fst (snd x) \<le> t) (pending st))))"
    unfolding advance_def
    using foldl_fire_value [of "st\<lparr>pending := filter (\<lambda>x. \<not> fst (snd x) \<le> t) (pending st)\<rparr>"
        "filter (\<lambda>x. fst (snd x) \<le> t) (pending st)"]
    by simp
  then show ?thesis by auto
qed

lemma advance_value_in:
  assumes "debouncedValue st \<in> S" and "set (map (\<lambda>x. snd (snd x)) (pending st)) \<subseteq> S"
  shows "debouncedValue (advance timer_callback t st) \<in> S"
proof -
  have "insert (debouncedValue st) (set (map (\<lambda>x. snd (snd x)) (pending st))) \<subseteq> S"
    using assms by simp
  then show ?thesis using advance_value [of t st] by (rule subsetD)
qed

lemma values_step:
  assumes "debouncedValue st \<in> S" and "set (map (\<lambda>x. snd (snd x)) (pending st)) \<subseteq> S" and "v \<in> S"
  shows "debouncedValue (useDebounce_render v delay t (advance timer_callback t st)) \<in> S
    \<and> set (map (\<lambda>x. snd (snd x)) (pending (useDebounce_render v delay t (advance timer_callback t st)))) \<subseteq> S"
proof -
  let ?a = "advance timer_callback t st"
  have a1: "debouncedValue ?a \<in> S"
    using assms(1,2) by (rule advance_value_in)
  have a2: "set (map (\<lambda>x. snd (snd x)) (pending ?a)) \<subseteq> S"
    using assms(2) by (auto simp: advance_host [where fire = timer_callback, OF keeps_host_timer_callback])
  have "set (map (\<lambda>x. snd (snd x)) (pending (cleanup ?a))) \<subseteq> S"
    using a2 by (auto simp: cleanup_def clearTimeout_def)
  then show ?thesis
    using a1 a2 assms(3) by (simp add: useDebounce_render_def effect_fields cleanup_fields)
qed

lemma values_run:
  assumes "debouncedValue st \<in> S" and "set (map (\<lambda>x. snd (snd x)) (pending st)) \<subseteq> S"
    and "set (map snd evs) \<subseteq> S"
  shows "debouncedValue (run_debounce delay evs st) \<in> S
    \<and> set (map (\<lambda>x. snd (snd x)) (pending (run_debounce delay evs st))) \<subseteq> S"
  using assms
proof (induction evs arbitrary: st)
  case Nil
  then show ?case by simp
next
  case (Cons e evs)
  have "snd e \<in> S" using Cons.prems(3) by simp
  from values_step [OF Cons.prems(1,2) this, of delay "fst e"]
  show ?case using Cons.IH [of "useDebounce_render (snd e) delay (fst e) (advance timer_callback (fst e) st)"]
      Cons.prems(3) by simp
qed

text \<open>
  C9. Right after instantiation with \<open>v\<close> the output is \<open>v\<close>, before any timer has
  run; and at every later moment of any run the output is the initial value or one of
  the values rendered, never anything else.
\<close>

theorem debounce_initial_output:
  "debouncedValue (useDebounce_mount v delay now) = v
   \<and> calls (useDebounce_mount v delay now) = []
   \<and> fired (useDebounce_mount v delay now) = []
   \<and> debouncedValue (advance timer_callback T (run_debounce delay evs (useDebounce_mount v delay now)))
       \<in> set (v # map snd evs)"
proof -
  let ?m = "useDebounce_mount v delay now"
  have "debouncedValue ?m \<in> set (v # map snd evs)"
    and "set (map (\<lambda>x. snd (snd x)) (pending ?m)) \<subseteq> set (v # map snd evs)"
    and "set (map snd evs) \<subseteq> set (v # map snd evs)"
    by (auto simp: useDebounce_mount_def effect_fields)
  then have "debouncedValue (run_debounce delay evs ?m) \<in> set (v # map snd evs)
    \<and> set (map (\<lambda>x. snd (snd x)) (pending (run_debounce delay evs ?m))) \<subseteq> set (v # map snd evs)"
    by (rule values_run)
  then have "debouncedValue (advance timer_callback T (run_debounce delay evs ?m)) \<in> set (v # map snd evs)"
    using advance_value_in [of "run_debounce delay evs ?m" "set (v # map snd evs)" T] by blast
  then show ?thesis by (simp add: useDebounce_mount_def effect_fields)
qed

theorem debounce_initial_output_witness:
  "debouncedValue (useDebounce_mount ''x'' 500 0) = ''x''
   \<and> debouncedValue (advance timer_callback 499 (run_debounce 500 [] (useDebounce_mount ''x'' 500 0))) = ''x''"
  using debounce_initial_output [of "''x''" 500 0 499 "[]"]
  by (simp add: useDebounce_mount_def effect_def setTimeout_def advance_def)

text \<open>
  C7 (as amended). A negative delay is accepted by both hooks: nothing is rejected at
  construction. The throttle then runs the callback on every call made at or after
  the recorded time; the debounce hands the delay to \<open>setTimeout\<close>, where it counts
  as zero, so the timer is due at once.
\<close>

theorem negative_delay_accepted:
  assumes "delay < 0"
  shows "useThrottle_construct delay now = Some \<lparr>lastRun = now\<rparr>
    \<and> useDebounce_construct v delay now = Some (useDebounce_mount v delay now)
    \<and> pending (useDebounce_mount v delay now) = [(0, now, v)]
    \<and> (lastRun st \<le> now1 \<longrightarrow> fst (request delay cb now1 now2 (st, c)) \<noteq> Dropped)"
proof -
  have "lastRun st \<le> now1 \<longrightarrow> fst (request delay cb now1 now2 (st, c)) \<noteq> Dropped"
    using assms by (cases "cb c") (auto simp: request_def split: option.splits)
  then show ?thesis
    using assms by (simp add: useThrottle_construct_def useThrottle_def useDebounce_construct_def
        useDebounce_mount_def effect_fields)
qed

theorem negative_delay_accepted_witness:
  "(- 1 :: int) < 0
   \<and> useThrottle_construct (- 1) 5 = Some \<lparr>lastRun = 5\<rparr>
   \<and> map fst (pending (useDebounce_mount ''x'' (- 1) 5)) = [0]
   \<and> map (\<lambda>x. fst (snd x)) (pending (useDebounce_mount ''x'' (- 1) 5)) = [5]
   \<and> request (- 1) count_up 5 5 (\<lparr>lastRun = 5\<rparr>, 0) = (Executed, \<lparr>lastRun = 5\<rparr>, 1)"
  using negative_delay_accepted [of "- 1" 5 "''x''" "\<lparr>lastRun = 5\<rparr>" 5 count_up 5 0]
  by (simp add: request_def count_up_def)

text \<open>Both hooks accept a delay of -1; the debounce's timer is due at the time of mounting.\<close>

theorem negative_delay_counterexample:
  "useThrottle_construct (- 1) 5 \<noteq> None \<and> useDebounce_construct ''x'' (- 1) 5 \<noteq> None
   \<and> pending (useDebounce_mount ''x'' (- 1) 5) = [(0, 5, ''x'')]"
  by (simp add: useThrottle_construct_def useDebounce_construct_def useDebounce_mount_def
      effect_def setTimeout_def)

subsection \<open>Teardown\<close>

lemma accounted_resize: "accounted st \<Longrightarrow> accounted (resize dims now st)"
  by (auto simp: resize_def handleResize_def setTimeout_def clearTimeout_def accounted_def
      list_all_iff less_Suc_eq)

lemma accounted_winsize_unmount: "accounted st \<Longrightarrow> accounted (useWindowSize_unmount st)"
  by (auto simp: useWindowSize_unmount_def clearTimeout_def accounted_def list_all_iff)

lemma run_winsize_accounted: "accounted st \<Longrightarrow> accounted (run_winsize evs st)"
proof (induction evs arbitrary: st)
  case Nil
  then show ?case by simp
next
  case (Cons e evs)
  have "accounted (advance resize_callback (fst e) st)"
    by (rule accounted_advance [where fire = resize_callback, OF keeps_host_resize_callback Cons.prems])
  then show ?case
    using Cons.IH [of "resize (snd e) (fst e) (advance resize_callback (fst e) st)"]
    by (simp add: accounted_resize)
qed

lemma winsize_reachable_accounted:
  "accounted (advance resize_callback t (run_winsize evs (useWindowSize_mount dims)))"
proof -
  have "accounted (useWindowSize_mount dims)"
    by (simp add: useWindowSize_mount_def accounted_def)
  then have "accounted (run_winsize evs (useWindowSize_mount dims))"
    by (rule run_winsize_accounted)
  then show ?thesis
    by (rule accounted_advance [where fire = resize_callback, OF keeps_host_resize_callback])
qed

lemma winsize_unmount_idem:
  "useWindowSize_unmount (useWindowSize_unmount w) = useWindowSize_unmount w"
proof -
  have "filter (\<lambda>i. Some i = timeoutId w)
      (map fst (filter (\<lambda>x. Some (fst x) \<noteq> timeoutId w) (pending w))) = []"
    by (induction "pending w") (auto simp: filter_empty_conv)
  then show ?thesis by (simp add: useWindowSize_unmount_def clearTimeout_def)
qed

lemma winsize_unmount_fields:
  "windowSize (useWindowSize_unmount w) = windowSize w"
  "listening (useWindowSize_unmount w) = False"
  by (simp_all add: useWindowSize_unmount_def clearTimeout_def)

text \<open>
  C6. Unmounting in any reachable state cancels the pending timer at once. From then
  on no callback runs, whatever time passes: the output, the log of setter calls and
  the log of output changes stay as they were (for the window-size hook also when
  the window is resized again). Every handle the instance ever obtained has fired or
  was cancelled, and a second teardown changes nothing. The throttle hook creates no
  timer and has no teardown of its own.
\<close>

theorem teardown_cancels:
  assumes "st = advance timer_callback t (run_debounce delay evs (useDebounce_mount v delay t0))"
    and "w = advance resize_callback t (run_winsize wevs (useWindowSize_mount dims))"
  shows "pending (useDebounce_unmount st) = []
    \<and> cancelled (useDebounce_unmount st) = cancelled st @ map fst (pending st)
    \<and> advance timer_callback T (useDebounce_unmount st) = useDebounce_unmount st
    \<and> debouncedValue (useDebounce_unmount st) = debouncedValue st
    \<and> changes (useDebounce_unmount st) = changes st
    \<and> calls (useDebounce_unmount st) = calls st
    \<and> list_all (\<lambda>i. i \<in> set (fired (useDebounce_unmount st)) \<or> i \<in> set (cancelled (useDebounce_unmount st)))
         [0..<nextId (useDebounce_unmount st)]
    \<and> useDebounce_unmount (useDebounce_unmount st) = useDebounce_unmount st
    \<and> pending (useWindowSize_unmount w) = []
    \<and> advance resize_callback T (useWindowSize_unmount w) = useWindowSize_unmount w
    \<and> pending (resize dims' T (useWindowSize_unmount w)) = []
    \<and> windowSize (resize dims' T (useWindowSize_unmount w)) = windowSize w
    \<and> list_all (\<lambda>i. i \<in> set (fired (useWindowSize_unmount w)) \<or> i \<in> set (cancelled (useWindowSize_unmount w)))
         [0..<nextId (useWindowSize_unmount w)]
    \<and> useWindowSize_unmount (useWindowSize_unmount w) = useWindowSize_unmount w"
proof -
  have ss: "single_slot (handler st) st" and acc: "accounted st"
    unfolding assms by (rule reachable_inv)+
  have p: "pending (useDebounce_unmount st) = []"
    using ss by (simp add: useDebounce_unmount_def pending_cleanup)
  have "accounted (useDebounce_unmount st)"
    using acc by (simp add: useDebounce_unmount_def accounted_cleanup)
  then have l: "list_all (\<lambda>i. i \<in> set (fired (useDebounce_unmount st)) \<or> i \<in> set (cancelled (useDebounce_unmount st)))
         [0..<nextId (useDebounce_unmount st)]"
    using p by (simp add: accounted_def)
  have d: "cancelled (useDebounce_unmount st) = cancelled st @ map fst (pending st)
    \<and> advance timer_callback T (useDebounce_unmount st) = useDebounce_unmount st
    \<and> debouncedValue (useDebounce_unmount st) = debouncedValue st
    \<and> changes (useDebounce_unmount st) = changes st
    \<and> calls (useDebounce_unmount st) = calls st
    \<and> useDebounce_unmount (useDebounce_unmount st) = useDebounce_unmount st"
    using p ss by (simp add: advance_Nil unmount_idem)
      (simp add: useDebounce_unmount_def cleanup_fields cancelled_cleanup)
  have ws: "single_slot (timeoutId w) w" and wacc: "accounted w"
    unfolding assms by (rule winsize_reachable_inv, rule winsize_reachable_accounted)
  have ws': "single_slot (timeoutId (w\<lparr>listening := False\<rparr>)) (w\<lparr>listening := False\<rparr>)"
    using ws by (simp add: single_slot_def)
  have wp: "pending (useWindowSize_unmount w) = []"
    using single_slot_clearTimeout [OF ws'] by (simp add: useWindowSize_unmount_def)
  have "accounted (useWindowSize_unmount w)"
    using wacc by (rule accounted_winsize_unmount)
  then have wl: "list_all (\<lambda>i. i \<in> set (fired (useWindowSize_unmount w)) \<or> i \<in> set (cancelled (useWindowSize_unmount w)))
         [0..<nextId (useWindowSize_unmount w)]"
    using wp by (simp add: accounted_def)
  have wd: "advance resize_callback T (useWindowSize_unmount w) = useWindowSize_unmount w
    \<and> pending (resize dims' T (useWindowSize_unmount w)) = []
    \<and> windowSize (resize dims' T (useWindowSize_unmount w)) = windowSize w"
    using wp by (simp add: advance_Nil resize_def winsize_unmount_fields)
  show ?thesis using p l d wp wl wd winsize_unmount_idem [of w] by blast
qed

theorem teardown_cancels_witness:
  "pending (advance timer_callback 160
      (run_debounce 200 [(100, ''b''), (150, ''c'')] (useDebounce_mount ''a'' 200 0))) = [(2, 350, ''c'')]
   \<and> pending (useDebounce_unmount (advance timer_callback 160
      (run_debounce 200 [(100, ''b''), (150, ''c'')] (useDebounce_mount ''a'' 200 0)))) = []
   \<and> cancelled (useDebounce_unmount (advance timer_callback 160
      (run_debounce 200 [(100, ''b''), (150, ''c'')] (useDebounce_mount ''a'' 200 0)))) = [0, 1, 2]
   \<and> changes (advance timer_callback 1000 (useDebounce_unmount (advance timer_callback 160
      (run_debounce 200 [(100, ''b''), (150, ''c'')] (useDebounce_mount ''a'' 200 0))))) = []
   \<and> cancelled (useWindowSize_unmount (advance resize_callback 160
      (run_winsize [(100, (3, 4)), (150, (5, 6))] (useWindowSize_mount (1, 2))))) = [0, 1]"
  using teardown_cancels [of _ 160 200 "[(100, ''b''), (150, ''c'')]" "''a''" 0 _
      "[(100, (3, 4)), (150, (5, 6))]" "(1, 2)" 1000 "(9, 9)", OF refl refl]
  by (simp add: useDebounce_unmount_def useDebounce_mount_def useDebounce_render_def
      effect_def cleanup_def setTimeout_def clearTimeout_def advance_def timer_callback_def
      useWindowSize_unmount_def useWindowSize_mount_def resize_def handleResize_def
      resize_callback_def)

subsection \<open>Quiet periods\<close>

lemma render_same: "deps st = (v, delay) \<Longrightarrow> useDebounce_render v delay now st = st"
  by (simp add: useDebounce_render_def)

lemma render_calls: "calls (useDebounce_render v delay now st) = calls st"
  by (simp add: useDebounce_render_def effect_fields cleanup_fields)

lemma render_deps: "deps (useDebounce_render v delay now st) = (v, delay)"
  by (simp add: useDebounce_render_def effect_fields)

lemma settled_quiet:
  "t + d \<le> T \<Longrightarrow> \<forall>x\<in>set xs. t + d \<le> fst x \<Longrightarrow>
   settled d ((t, v) # xs) T = (t, v) # settled d xs T"
  by (cases xs) simp_all

lemma new_inputs_subset: "set (new_inputs v evs) \<subseteq> set evs"
  by (induction evs arbitrary: v) auto

lemma debounce_calls_aux:
  assumes d: "0 \<le> delay"
  shows "(\<forall>st t v h. pending st = [(h, t + delay, v)] \<and> handler st = Some h \<and> deps st = (v, delay)
            \<and> sorted (t # map fst evs @ [T]) \<longrightarrow>
          calls (advance timer_callback T (run_debounce delay evs st)) =
            calls st @ map (emit delay) (settled delay ((t, v) # new_inputs v evs) T))
       \<and> (\<forall>st v. pending st = [] \<and> deps st = (v, delay) \<and> sorted (map fst evs @ [T]) \<longrightarrow>
          calls (advance timer_callback T (run_debounce delay evs st)) =
            calls st @ map (emit delay) (settled delay (new_inputs v evs) T))"
proof (induction evs)
  case Nil
  show ?case
  proof (intro conjI allI impI)
    fix st :: "'a debounce" and t v h
    assume a: "pending st = [(h, t + delay, v)] \<and> handler st = Some h \<and> deps st = (v, delay)
            \<and> sorted (t # map fst [] @ [T])"
    show "calls (advance timer_callback T (run_debounce delay [] st)) =
            calls st @ map (emit delay) (settled delay ((t, v) # new_inputs v []) T)"
    proof (cases "t + delay \<le> T")
      case True
      then show ?thesis using a
        by (simp add: advance_single_due timer_callback_def emit_def)
    next
      case False
      then show ?thesis using a by (simp add: advance_single_not_due)
    qed
  next
    fix st :: "'a debounce" and v
    assume "pending st = [] \<and> deps st = (v, delay) \<and> sorted (map fst [] @ [T])"
    then show "calls (advance timer_callback T (run_debounce delay [] st)) =
            calls st @ map (emit delay) (settled delay (new_inputs v []) T)"
      by (simp add: advance_Nil)
  qed
next
  case (Cons e evs)
  note ihA = Cons.IH [THEN conjunct1, rule_format]
  note ihB = Cons.IH [THEN conjunct2, rule_format]
  obtain t' v' where e: "e = (t', v')" by (cases e)
  have stepB: "calls (advance timer_callback T (run_debounce delay (e # evs) st)) =
            calls st @ map (emit delay) (settled delay (new_inputs v (e # evs)) T)"
    if b: "pending st = []" "deps st = (v, delay)" and so: "sorted (map fst (e # evs) @ [T])"
    for st :: "'a debounce" and v
  proof -
    have adv: "advance timer_callback t' st = st" using b by (simp add: advance_Nil)
    have so': "sorted (map fst evs @ [T])" and so'': "sorted (t' # map fst evs @ [T])"
      using so e by simp_all
    show ?thesis
    proof (cases "v' = v")
      case True
      then have "useDebounce_render v' delay t' st = st" using b by (simp add: render_same)
      then show ?thesis using ihB [of st v] b so' True e adv by simp
    next
      case False
      let ?r = "useDebounce_render v' delay t' st"
      have ss: "single_slot (handler st) st" using b by (simp add: single_slot_def)
      have ne: "deps st \<noteq> (v', delay)" using b False by simp
      have "pending ?r = [(nextId st, t' + delay, v')]" "handler ?r = Some (nextId st)"
        using render_new [OF ss ne, of t'] d by simp_all
      then have "calls (advance timer_callback T (run_debounce delay evs ?r)) =
            calls ?r @ map (emit delay) (settled delay ((t', v') # new_inputs v' evs) T)"
        using ihA [of ?r "nextId st" t' v'] so'' by (simp add: render_deps)
      then show ?thesis using False e adv by (simp add: render_calls)
    qed
  qed
  have stepA: "calls (advance timer_callback T (run_debounce delay (e # evs) st)) =
            calls st @ map (emit delay) (settled delay ((t, v) # new_inputs v (e # evs)) T)"
    if a: "pending st = [(h, t + delay, v)]" "handler st = Some h" "deps st = (v, delay)"
      and so: "sorted (t # map fst (e # evs) @ [T])"
    for st :: "'a debounce" and t v h
  proof -
    have so1: "sorted (map fst (e # evs) @ [T])" and tt': "t \<le> t'" and t'T: "t' \<le> T"
      and so2: "sorted (t # map fst evs @ [T])" and so3: "sorted (t' # map fst evs @ [T])"
      using so e by auto
    have ss: "single_slot (handler st) st" using a by (simp add: single_slot_def)
    show ?thesis
    proof (cases "t + delay \<le> t'")
      case fired: True
      let ?a = "advance timer_callback t' st"
      have pa: "pending ?a = []" and da: "deps ?a = (v, delay)"
        and ca: "calls ?a = calls st @ [(t + delay, v)]"
        using a fired by (simp_all add: advance_single_due timer_callback_def)
      have "calls (advance timer_callback T (run_debounce delay (e # evs) ?a)) =
            calls ?a @ map (emit delay) (settled delay (new_inputs v (e # evs)) T)"
        using pa da so1 by (rule stepB)
      moreover have "advance timer_callback t' ?a = ?a" using pa by (simp add: advance_Nil)
      ultimately have run: "calls (advance timer_callback T (run_debounce delay (e # evs) st)) =
            calls st @ (t + delay, v) # map (emit delay) (settled delay (new_inputs v (e # evs)) T)"
        using ca e by simp
      have "\<forall>x\<in>set (new_inputs v (e # evs)). t + delay \<le> fst x"
      proof
        fix x assume "x \<in> set (new_inputs v (e # evs))"
        then have "x \<in> set (e # evs)" by (rule subsetD [OF new_inputs_subset])
        then have "t' \<le> fst x" using so3 e by auto
        then show "t + delay \<le> fst x" using fired by simp
      qed
      moreover have "t + delay \<le> T" using fired t'T by simp
      ultimately have "settled delay ((t, v) # new_inputs v (e # evs)) T =
          (t, v) # settled delay (new_inputs v (e # evs)) T"
        by (simp add: settled_quiet)
      then show ?thesis using run by (simp add: emit_def)
    next
      case waiting: False
      have adv: "advance timer_callback t' st = st"
        using a waiting by (simp add: advance_single_not_due)
      show ?thesis
      proof (cases "v' = v")
        case True
        then have "useDebounce_render v' delay t' st = st" using a by (simp add: render_same)
        then show ?thesis using ihA [of st h t v] a so2 True e adv by simp
      next
        case False
        let ?r = "useDebounce_render v' delay t' st"
        have ne: "deps st \<noteq> (v', delay)" using a False by simp
        have "pending ?r = [(nextId st, t' + delay, v')]" "handler ?r = Some (nextId st)"
          using render_new [OF ss ne, of t'] d by simp_all
        then have "calls (advance timer_callback T (run_debounce delay evs ?r)) =
            calls ?r @ map (emit delay) (settled delay ((t', v') # new_inputs v' evs) T)"
          using ihA [of ?r "nextId st" t' v'] so3 by (simp add: render_deps)
        then show ?thesis using False e adv waiting by (simp add: render_calls)
      qed
    qed
  qed
  show ?case using stepA stepB by blast
qed

lemma value_changes_snoc:
  "value_changes v (cs @ [e]) =
     (if snd e = snd (last ((t, v) # cs)) then value_changes v cs else value_changes v cs @ [e])"
proof (induction cs arbitrary: v t)
  case Nil
  then show ?case by simp
next
  case (Cons c cs)
  show ?case
  proof (cases "snd c = v")
    case True
    then show ?thesis using Cons.IH [of v "fst c"] by simp
  next
    case False
    then show ?thesis using Cons.IH [of "snd c" "fst c"] by simp
  qed
qed

lemma output_fire:
  assumes "changes s = value_changes v0 (calls s)" and "debouncedValue s = snd (last ((t0, v0) # calls s))"
  shows "changes (timer_callback (s\<lparr>fired := f\<rparr>) x) = value_changes v0 (calls (timer_callback (s\<lparr>fired := f\<rparr>) x))
    \<and> debouncedValue (timer_callback (s\<lparr>fired := f\<rparr>) x) = snd (last ((t0, v0) # calls (timer_callback (s\<lparr>fired := f\<rparr>) x)))"
  using assms by (simp add: timer_callback_def value_changes_snoc [of v0 "calls s" _ t0])

lemma output_foldl:
  assumes "changes s = value_changes v0 (calls s)" and "debouncedValue s = snd (last ((t0, v0) # calls s))"
  shows "changes (foldl (\<lambda>s x. timer_callback (s\<lparr>fired := fired s @ [fst x]\<rparr>) x) s xs)
      = value_changes v0 (calls (foldl (\<lambda>s x. timer_callback (s\<lparr>fired := fired s @ [fst x]\<rparr>) x) s xs))
    \<and> debouncedValue (foldl (\<lambda>s x. timer_callback (s\<lparr>fired := fired s @ [fst x]\<rparr>) x) s xs)
      = snd (last ((t0, v0) # calls (foldl (\<lambda>s x. timer_callback (s\<lparr>fired := fired s @ [fst x]\<rparr>) x) s xs)))"
  using assms
proof (induction xs arbitrary: s)
  case Nil
  then show ?case by simp
next
  case (Cons x xs)
  from output_fire [OF Cons.prems, of "fired s @ [fst x]" x]
  show ?case using Cons.IH [of "timer_callback (s\<lparr>fired := fired s @ [fst x]\<rparr>) x"] by simp
qed

lemma output_advance:
  assumes "changes s = value_changes v0 (calls s)" and "debouncedValue s = snd (last ((t0, v0) # calls s))"
  shows "changes (advance timer_callback t s) = value_changes v0 (calls (advance timer_callback t s))
    \<and> debouncedValue (advance timer_callback t s) = snd (last ((t0, v0) # calls (advance timer_callback t s)))"
  unfolding advance_def by (rule output_foldl) (simp_all add: assms)

lemma output_render:
  assumes "changes s = value_changes v0 (calls s)" and "debouncedValue s = snd (last ((t0, v0) # calls s))"
  shows "changes (useDebounce_render v delay t s) = value_changes v0 (calls (useDebounce_render v delay t s))
    \<and> debouncedValue (useDebounce_render v delay t s) = snd (last ((t0, v0) # calls (useDebounce_render v delay t s)))"
  using assms by (simp add: useDebounce_render_def effect_fields cleanup_fields)

lemma output_run:
  assumes "changes s = value_changes v0 (calls s)" and "debouncedValue s = snd (last ((t0, v0) # calls s))"
  shows "changes (run_debounce delay evs s) = value_changes v0 (calls (run_debounce delay evs s))
    \<and> debouncedValue (run_debounce delay evs s) = snd (last ((t0, v0) # calls (run_debounce delay evs s)))"
  using assms
proof (induction evs arbitrary: s)
  case Nil
  then show ?case by simp
next
  case (Cons e evs)
  have a: "changes (advance timer_callback (fst e) s) = value_changes v0 (calls (advance timer_callback (fst e) s))
    \<and> debouncedValue (advance timer_callback (fst e) s) = snd (last ((t0, v0) # calls (advance timer_callback (fst e) s)))"
    using Cons.prems by (rule output_advance)
  have "changes (useDebounce_render (snd e) delay (fst e) (advance timer_callback (fst e) s))
      = value_changes v0 (calls (useDebounce_render (snd e) delay (fst e) (advance timer_callback (fst e) s)))
    \<and> debouncedValue (useDebounce_render (snd e) delay (fst e) (advance timer_callback (fst e) s))
      = snd (last ((t0, v0) # calls (useDebounce_render (snd e) delay (fst e) (advance timer_callback (fst e) s))))"
    using a by (intro output_render) simp_all
  then show ?case
    using Cons.IH [of "useDebounce_render (snd e) delay (fst e) (advance timer_callback (fst e) s)"]
    by simp
qed

lemma subseq_new_inputs: "subseq (new_inputs v evs) evs"
  by (induction evs arbitrary: v) (auto intro: list_emb_Cons)

lemma subseq_settled: "subseq (settled d xs T) xs"
  by (induction d xs T rule: settled.induct) (auto intro: list_emb_Cons)

lemma snd_emit: "snd \<circ> emit d = snd"
  by (simp add: fun_eq_iff emit_def)

lemma mount_fields:
  "pending (useDebounce_mount v delay now) = [(0, now + max 0 delay, v)]"
  "handler (useDebounce_mount v delay now) = Some 0"
  "deps (useDebounce_mount v delay now) = (v, delay)"
  "calls (useDebounce_mount v delay now) = []"
  "changes (useDebounce_mount v delay now) = []"
  "debouncedValue (useDebounce_mount v delay now) = v"
  by (simp_all add: useDebounce_mount_def effect_fields)

text \<open>
  C4 (as amended). For a delay of at least zero and inputs in the order of their
  times, the timer's callback runs exactly once for every new input that is followed
  by \<open>delay\<close> ms without a new input, \<open>delay\<close> ms after that input and with its
  value, and never otherwise; the emitted values appear in the order of the inputs.
  The output changes at such a call when the value differs from the output so far, so
  a quiet period brings at most one change; afterwards the output is the last value
  emitted. Inputs \<open>a\<close> at 0 (the first render), \<open>b\<close> at 100 and \<open>c\<close> at 150 with a
  delay of 200, \<open>c\<close> differing from \<open>a\<close> and \<open>b\<close>, give exactly one change: at 350, to
  \<open>c\<close>.
\<close>

theorem debounce_settles:
  assumes "0 \<le> delay" and "sorted (t0 # map fst evs @ [T])"
    and "fin = advance timer_callback T (run_debounce delay evs (useDebounce_mount v0 delay t0))"
  shows "calls fin = map (emit delay) (settled delay ((t0, v0) # new_inputs v0 evs) T)
    \<and> subseq (map snd (calls fin)) (v0 # map snd evs)
    \<and> changes fin = value_changes v0 (calls fin)
    \<and> debouncedValue fin = snd (last ((t0, v0) # calls fin))
    \<and> (a \<noteq> c \<and> b \<noteq> c \<and> 350 \<le> T' \<longrightarrow>
         changes (advance timer_callback T' (run_debounce 200 [(100, b), (150, c)]
           (useDebounce_mount a 200 0))) = [(350, c)])"
proof -
  let ?m = "useDebounce_mount v0 delay t0"
  have m: "pending ?m = [(0, t0 + delay, v0)]" "handler ?m = Some 0" "deps ?m = (v0, delay)"
    using assms(1) by (simp_all add: mount_fields)
  have 1: "calls fin = map (emit delay) (settled delay ((t0, v0) # new_inputs v0 evs) T)"
    using debounce_calls_aux [OF assms(1), of evs T, THEN conjunct1, rule_format, of ?m 0 t0 v0]
      m assms(2) unfolding assms(3) by (simp add: mount_fields)
  have "subseq (settled delay ((t0, v0) # new_inputs v0 evs) T) ((t0, v0) # new_inputs v0 evs)"
    by (rule subseq_settled)
  moreover have "subseq ((t0, v0) # new_inputs v0 evs) ((t0, v0) # evs)"
    by (simp add: subseq_new_inputs)
  ultimately have "subseq (settled delay ((t0, v0) # new_inputs v0 evs) T) ((t0, v0) # evs)"
    by (rule subseq_order.trans)
  then have "subseq (map snd (settled delay ((t0, v0) # new_inputs v0 evs) T)) (map snd ((t0, v0) # evs))"
    by (rule subseq_map)
  then have 2: "subseq (map snd (calls fin)) (v0 # map snd evs)"
    by (simp add: 1 snd_emit)
  have "changes (run_debounce delay evs ?m) = value_changes v0 (calls (run_debounce delay evs ?m))
    \<and> debouncedValue (run_debounce delay evs ?m) = snd (last ((t0, v0) # calls (run_debounce delay evs ?m)))"
    by (rule output_run) (simp_all add: mount_fields)
  then have 3: "changes fin = value_changes v0 (calls fin)
    \<and> debouncedValue fin = snd (last ((t0, v0) # calls fin))"
    unfolding assms(3) by (intro output_advance) simp_all
  have 4: "a \<noteq> c \<and> b \<noteq> c \<and> 350 \<le> T' \<longrightarrow>
         changes (advance timer_callback T' (run_debounce 200 [(100, b), (150, c)]
           (useDebounce_mount a 200 0))) = [(350, c)]"
  proof
    assume h: "a \<noteq> c \<and> b \<noteq> c \<and> 350 \<le> T'"
    let ?f = "advance timer_callback T' (run_debounce 200 [(100, b), (150, c)] (useDebounce_mount a 200 0))"
    let ?m' = "useDebounce_mount a 200 0"
    have m': "pending ?m' = [(0, 0 + 200, a)]" "handler ?m' = Some 0" "deps ?m' = (a, 200)"
      by (simp_all add: mount_fields)
    have "sorted (0 # map fst [(100, b), (150, c)] @ [T'])" using h by simp
    then have c: "calls ?f = map (emit 200) (settled 200 ((0, a) # new_inputs a [(100, b), (150, c)]) T')"
      using debounce_calls_aux [of 200 "[(100, b), (150, c)]" T', THEN conjunct1, rule_format, of ?m' 0 0 a]
        m' by (simp add: mount_fields)
    have "changes (run_debounce 200 [(100, b), (150, c)] ?m')
        = value_changes a (calls (run_debounce 200 [(100, b), (150, c)] ?m'))
      \<and> debouncedValue (run_debounce 200 [(100, b), (150, c)] ?m')
        = snd (last ((0, a) # calls (run_debounce 200 [(100, b), (150, c)] ?m')))"
      by (rule output_run) (simp_all add: mount_fields)
    then have "changes ?f = value_changes a (calls ?f)
      \<and> debouncedValue ?f = snd (last ((0, a) # calls ?f))"
      by (intro output_advance) simp_all
    then have ch: "changes ?f = value_changes a (calls ?f)" by (rule conjunct1)
    have "settled 200 ((0, a) # new_inputs a [(100, b), (150, c)]) T' = [(150, c)]"
      using h by (cases "b = a") auto
    then have "calls ?f = [(350, c)]" unfolding c by (simp add: emit_def)
    then show "changes ?f = [(350, c)]" unfolding ch using h by auto
  qed
  show ?thesis using 1 2 3 4 by blast
qed

theorem debounce_settles_witness:
  "(0::int) \<le> 200 \<and> sorted (0 # map fst [(100, ''b''), (150, ''c'')] @ [1000::int])
   \<and> calls (advance timer_callback 1000 (run_debounce 200 [(100, ''b''), (150, ''c'')]
        (useDebounce_mount ''a'' 200 0))) = [(350, ''c'')]
   \<and> changes (advance timer_callback 1000 (run_debounce 200 [(100, ''b''), (150, ''c'')]
        (useDebounce_mount ''a'' 200 0))) = [(350, ''c'')]
   \<and> debouncedValue (advance timer_callback 1000 (run_debounce 200 [(100, ''b''), (150, ''c'')]
        (useDebounce_mount ''a'' 200 0))) = ''c''"
  using debounce_settles [of 200 0 "[(100, ''b''), (150, ''c'')]" 1000 _ "''a''" "''a''" "''c''" "''b''" 1000,
      OF _ _ refl]
  by (simp add: emit_def)

text \<open>
  Mounted with \<open>a\<close>, then \<open>b\<close> at 100 and \<open>a\<close> again at 150: the input at 150 is
  followed by a quiet period and the timer runs at 350, but the output, \<open>a\<close> all along,
  does not change.
\<close>

theorem debounce_settles_counterexample:
  "settled 200 ((0, ''a'') # new_inputs ''a'' [(100, ''b''), (150, ''a'')]) 1000 = [(150, ''a'')]
   \<and> calls (advance timer_callback 1000 (run_debounce 200 [(100, ''b''), (150, ''a'')]
        (useDebounce_mount ''a'' 200 0))) = [(350, ''a'')]
   \<and> changes (advance timer_callback 1000 (run_debounce 200 [(100, ''b''), (150, ''a'')]
        (useDebounce_mount ''a'' 200 0))) = []"
  by (simp add: useDebounce_mount_def useDebounce_render_def effect_def cleanup_def
      setTimeout_def clearTimeout_def advance_def timer_callback_def)

end
